theory Spec2Isabelle
  imports Main
begin

section \<open>The filter combinators of \<open>src/filter.ts\<close>\<close>

text \<open>
  A leaf predicate of the library is a JavaScript function from an element to a boolean.
  Such a function may throw, and it may read and change whatever its closure reaches, so
  a call is modelled as a computation: it takes the state of the world and returns either
  the error thrown (\<open>Inl\<close>) or the value returned (\<open>Inr\<close>), together with the state it
  leaves behind. The element type \<open>'el\<close>, the state type \<open>'s\<close> and the error type
  \<open>'err\<close> are parameters: the library never looks inside any of them.
\<close>

type_synonym ('s, 'err, 'a) comp = "'s \<Rightarrow> ('err + 'a) \<times> 's"

text \<open>\<open>type QueryFilterPredicate = (el: Element) => boolean\<close>\<close>

type_synonym ('el, 's, 'err) QueryFilterPredicate = "'el \<Rightarrow> ('s, 'err, bool) comp"

text \<open>\<open>enum QueryFilterChainOperator { Intersection, Union }\<close>\<close>

datatype QueryFilterChainOperator = Intersection | Union

text \<open>
  \<open>type AnyFilter = QueryFilter | QueryFilterPredicate\<close> and \<open>class QueryFilterImpl\<close> with
  its four constructor fields \<open>_chainOp\<close>, \<open>_negated\<close>, \<open>_filters\<close>, \<open>_async\<close>, read through
  the getters \<open>chainOp\<close>, \<open>negated\<close>, \<open>filters\<close>, \<open>async\<close>. The source tells the two
  alternatives of \<open>AnyFilter\<close> apart with \<open>typeof value === 'function'\<close>; here the
  constructor is the tag. The type of the leaves is the parameter \<open>'p\<close>. An object
  that implements the interface \<open>QueryFilter\<close> without being a \<open>QueryFilterImpl\<close> is
  known to \<open>apply\<close> only through its own \<open>apply\<close> method, a function from an element to
  a boolean like any leaf, and is a \<open>Predicate\<close> here.
\<close>

datatype 'p AnyFilter =
    Predicate 'p
  | Filter "'p QueryFilterImpl"
and 'p QueryFilterImpl =
    QueryFilterImpl
      (chainOp: QueryFilterChainOperator)
      (negated: bool)
      (filters: "'p AnyFilter list")
      (async: bool)

subsection \<open>Expressions of the host language\<close>

text \<open>An expression that only yields a value: a constant, or reading a variable.\<close>

definition ret :: "'a \<Rightarrow> ('s, 'err, 'a) comp" where
  "ret v s = (Inr v, s)"

text \<open>
  Sequencing: run \<open>m\<close>; if it throws, the error leaves with the state reached; otherwise
  go on with its value.
\<close>

definition seq :: "('s, 'err, 'a) comp \<Rightarrow> ('a \<Rightarrow> ('s, 'err, 'b) comp) \<Rightarrow> ('s, 'err, 'b) comp" where
  "seq m k s = (case m s of (Inl e, s') \<Rightarrow> (Inl e, s') | (Inr v, s') \<Rightarrow> k v s')"

text \<open>
  The operators \<open>&&\<close>, \<open>||\<close> and \<open>!\<close> on booleans. \<open>a && b\<close> evaluates \<open>a\<close> and, only
  when it is true, evaluates \<open>b\<close>; \<open>a || b\<close> evaluates \<open>b\<close> only when \<open>a\<close> is false.
\<close>

definition js_and :: "('s, 'err, bool) comp \<Rightarrow> ('s, 'err, bool) comp \<Rightarrow> ('s, 'err, bool) comp" where
  "js_and a b = seq a (\<lambda>v. if v then b else ret v)"

definition js_or :: "('s, 'err, bool) comp \<Rightarrow> ('s, 'err, bool) comp \<Rightarrow> ('s, 'err, bool) comp" where
  "js_or a b = seq a (\<lambda>v. if v then ret v else b)"

definition js_not :: "('s, 'err, bool) comp \<Rightarrow> ('s, 'err, bool) comp" where
  "js_not a = seq a (\<lambda>v. ret (\<not> v))"

text \<open>
  \<open>Array.prototype.reduce(callback, initialValue)\<close>: a left fold that calls the callback
  once per entry, in index order; an error thrown by the callback ends the loop.
\<close>

fun reduce :: "('a \<Rightarrow> 'b \<Rightarrow> ('s, 'err, 'a) comp) \<Rightarrow> 'a \<Rightarrow> 'b list \<Rightarrow> ('s, 'err, 'a) comp" where
  "reduce callback accumulator [] s = (Inr accumulator, s)"
| "reduce callback accumulator (x # xs) s =
     (case callback accumulator x s of
        (Inl e, s') \<Rightarrow> (Inl e, s')
      | (Inr accumulator', s') \<Rightarrow> reduce callback accumulator' xs s')"

lemma reduce_cong [fundef_cong]:
  assumes "xs = ys" and "accumulator = accumulator'"
    and "\<And>a x. x \<in> set ys \<Longrightarrow> callback a x = callback' a x"
  shows "reduce callback accumulator xs = reduce callback' accumulator' ys"
proof
  fix s
  have "reduce callback accumulator' ys s = reduce callback' accumulator' ys s"
    using assms(3)
    by (induction ys arbitrary: accumulator' s) (auto split: prod.splits sum.splits)
  with assms(1,2) show "reduce callback accumulator xs s = reduce callback' accumulator' ys s"
    by simp
qed

subsection \<open>\<open>QueryFilterImpl.apply\<close>\<close>

fun apply_qf ::
  "('el, 's, 'err) QueryFilterPredicate QueryFilterImpl \<Rightarrow> 'el \<Rightarrow> ('s, 'err, bool) comp"
where
  "apply_qf (QueryFilterImpl op neg fs a) el =
     seq
       (case op of
          Intersection \<Rightarrow>
            reduce
              (\<lambda>accumulator fn.
                 js_and (ret accumulator)
                   (case fn of Predicate p \<Rightarrow> p el | Filter f \<Rightarrow> apply_qf f el))
              True fs
        | Union \<Rightarrow>
            reduce
              (\<lambda>accumulator fn.
                 js_or (ret accumulator)
                   (case fn of Predicate p \<Rightarrow> p el | Filter f \<Rightarrow> apply_qf f el))
              False fs)
       (\<lambda>provisional. if neg then js_not (ret provisional) else ret provisional)"

text \<open>
  What \<open>apply\<close> does with one entry of \<open>filters\<close>:
  \<open>QueryFilterImpl.isQueryFilterPredicate(fn) ? fn(el) : fn.apply(el)\<close>.
\<close>

definition invoke ::
  "('el, 's, 'err) QueryFilterPredicate AnyFilter \<Rightarrow> 'el \<Rightarrow> ('s, 'err, bool) comp"
where
  "invoke fn el = (case fn of Predicate p \<Rightarrow> p el | Filter f \<Rightarrow> apply_qf f el)"

subsection \<open>The factory functions\<close>

definition filter_qf :: "'p \<Rightarrow> 'p QueryFilterImpl" where
  "filter_qf predicate = QueryFilterImpl Intersection False [Predicate predicate] False"

definition and_qf :: "'p AnyFilter list \<Rightarrow> 'p QueryFilterImpl" where
  "and_qf fs = QueryFilterImpl Intersection False fs False"

definition or_qf :: "'p AnyFilter list \<Rightarrow> 'p QueryFilterImpl" where
  "or_qf fs = QueryFilterImpl Union False fs False"

definition not_qf :: "'p AnyFilter \<Rightarrow> 'p QueryFilterImpl" where
  "not_qf f = QueryFilterImpl Intersection True [f] False"

text \<open>\<open>identity = filter(() => true)\<close>\<close>

definition identity :: "('el, 's, 'err) QueryFilterPredicate QueryFilterImpl" where
  "identity = filter_qf (\<lambda>el. ret True)"

subsection \<open>Vocabulary for the properties\<close>

text \<open>
  A leaf that is a pure function of the element: it returns \<open>p el\<close>, throws nothing and
  leaves the state as it found it.
\<close>

definition pure_pred :: "('el \<Rightarrow> bool) \<Rightarrow> ('el, 's, 'err) QueryFilterPredicate" where
  "pure_pred p el = ret (p el)"

text \<open>
  The reading of a tree of pure predicates as a boolean expression, written from the
  specification and not from the code: an Intersection node is the conjunction of its
  children, a Union node their disjunction, and a negated node inverts the result. It is
  the reference that \<open>apply_qf\<close> is compared with.
\<close>

fun spec_eval :: "('el \<Rightarrow> bool) QueryFilterImpl \<Rightarrow> 'el \<Rightarrow> bool"
  and spec_eval_child :: "('el \<Rightarrow> bool) AnyFilter \<Rightarrow> 'el \<Rightarrow> bool"
where
  "spec_eval (QueryFilterImpl op neg fs a) x =
     (let reduced =
        (case op of
           Intersection \<Rightarrow> list_all (\<lambda>f. spec_eval_child f x) fs
         | Union \<Rightarrow> list_ex (\<lambda>f. spec_eval_child f x) fs)
      in if neg then \<not> reduced else reduced)"
| "spec_eval_child (Predicate p) x = p x"
| "spec_eval_child (Filter g) x = spec_eval g x"

text \<open>
  The leaf predicates of a tree, from left to right, each as often as it occurs.
\<close>

fun leaves :: "'p QueryFilterImpl \<Rightarrow> 'p list"
  and leaves_child :: "'p AnyFilter \<Rightarrow> 'p list"
where
  "leaves (QueryFilterImpl op neg fs a) = concat (map leaves_child fs)"
| "leaves_child (Predicate p) = [p]"
| "leaves_child (Filter g) = leaves g"

text \<open>
  Instruments for observing calls. \<open>counted p\<close> is the pure predicate \<open>p\<close> wrapped so
  that every call adds one to a counter kept in the state, the way a test spy counts its
  calls. \<open>constantly b\<close> is the predicate \<open>() => b\<close>, and \<open>throwing e\<close> is a leaf whose
  body is \<open>throw e\<close>.
\<close>

definition counted :: "('el \<Rightarrow> bool) \<Rightarrow> ('el, nat, 'err) QueryFilterPredicate" where
  "counted p el n = (Inr (p el), Suc n)"

definition constantly :: "bool \<Rightarrow> 'el \<Rightarrow> bool" where
  "constantly b el = b"

definition throwing :: "'err \<Rightarrow> ('el, 's, 'err) QueryFilterPredicate" where
  "throwing e el s = (Inl e, s)"

text \<open>
  The number of leaf calls of one evaluation under short-circuit evaluation, written
  from the statement it is used in and not from the code: the children of a node are
  counted from the left, up to and including the first one whose result decides the node
  (false under Intersection, true under Union); a leaf counts one, a nested node what
  its own evaluation counts.
\<close>

fun leaf_calls :: "('el \<Rightarrow> bool) QueryFilterImpl \<Rightarrow> 'el \<Rightarrow> nat"
  and leaf_calls_child :: "('el \<Rightarrow> bool) AnyFilter \<Rightarrow> 'el \<Rightarrow> nat"
  and leaf_calls_children ::
    "QueryFilterChainOperator \<Rightarrow> ('el \<Rightarrow> bool) AnyFilter list \<Rightarrow> 'el \<Rightarrow> nat"
where
  "leaf_calls (QueryFilterImpl op neg fs a) x = leaf_calls_children op fs x"
| "leaf_calls_child (Predicate p) x = 1"
| "leaf_calls_child (Filter g) x = leaf_calls g x"
| "leaf_calls_children op [] x = 0"
| "leaf_calls_children op (f # fs) x =
     leaf_calls_child f x +
     (if spec_eval_child f x = (op = Union) then 0 else leaf_calls_children op fs x)"

text \<open>
  A tree with the \<open>async\<close> flag of every node cleared: two trees are the same up to
  their \<open>async\<close> flags exactly when clearing the flags makes them equal.
\<close>

fun erase_async :: "'p QueryFilterImpl \<Rightarrow> 'p QueryFilterImpl"
  and erase_async_child :: "'p AnyFilter \<Rightarrow> 'p AnyFilter"
where
  "erase_async (QueryFilterImpl op neg fs a) =
     QueryFilterImpl op neg (map erase_async_child fs) False"
| "erase_async_child (Predicate p) = Predicate p"
| "erase_async_child (Filter g) = Filter (erase_async g)"

section \<open>Laws of the host-language expressions\<close>

lemma seq_ret_left: "seq (ret v) k = k v"
  by (rule ext) (simp add: seq_def ret_def)

lemma seq_ret_right: "seq m ret = m"
  by (rule ext) (simp add: seq_def ret_def split: prod.splits sum.splits)

lemma seq_assoc: "seq (seq m k) h = seq m (\<lambda>v. seq (k v) h)"
  by (rule ext) (simp add: seq_def split: prod.splits sum.splits)

lemma seq_ext:
  assumes "\<And>v. k v = k' v"
  shows "seq m k = seq m k'"
proof -
  have "k = k'"
    by (rule ext) (rule assms)
  then show ?thesis
    by simp
qed

lemma js_and_ret_True: "js_and (ret True) m = m"
  by (simp add: js_and_def seq_ret_left)

lemma js_or_ret_False: "js_or (ret False) m = m"
  by (simp add: js_or_def seq_ret_left)

lemma js_and_ret_True_right: "js_and m (ret True) = m"
proof -
  have "js_and m (ret True) = seq m ret"
    unfolding js_and_def by (rule seq_ext) simp
  then show ?thesis
    by (simp add: seq_ret_right)
qed

lemma js_or_ret_False_right: "js_or m (ret False) = m"
proof -
  have "js_or m (ret False) = seq m ret"
    unfolding js_or_def by (rule seq_ext) simp
  then show ?thesis
    by (simp add: seq_ret_right)
qed

lemma js_and_assoc: "js_and (js_and m1 m2) m3 = js_and m1 (js_and m2 m3)"
  unfolding js_and_def seq_assoc
  by (rule seq_ext) (simp add: seq_ret_left)

lemma js_or_assoc: "js_or (js_or m1 m2) m3 = js_or m1 (js_or m2 m3)"
  unfolding js_or_def seq_assoc
  by (rule seq_ext) (simp add: seq_ret_left)

lemma js_not_js_not: "js_not (js_not m) = m"
proof -
  have "js_not (js_not m) = seq m ret"
    unfolding js_not_def seq_assoc by (rule seq_ext) (simp add: seq_ret_left)
  then show ?thesis
    by (simp add: seq_ret_right)
qed

lemma js_not_js_and: "js_not (js_and m1 m2) = js_or (js_not m1) (js_not m2)"
  unfolding js_not_def js_and_def js_or_def seq_assoc
  by (rule seq_ext) (simp add: seq_ret_left)

lemma reduce_Nil: "reduce callback accumulator [] = ret accumulator"
  by (rule ext) (simp add: ret_def)

lemma reduce_Cons:
  "reduce callback accumulator (x # xs) =
     seq (callback accumulator x) (\<lambda>accumulator'. reduce callback accumulator' xs)"
  by (rule ext) (simp add: seq_def)

text \<open>Once the accumulator of an Intersection is false, no later entry is evaluated.\<close>

lemma reduce_and_False:
  "reduce (\<lambda>accumulator fn. js_and (ret accumulator) (g fn)) False fs = ret False"
  by (induction fs) (simp_all add: reduce_Nil reduce_Cons js_and_def seq_ret_left)

text \<open>Once the accumulator of a Union is true, no later entry is evaluated.\<close>

lemma reduce_or_True:
  "reduce (\<lambda>accumulator fn. js_or (ret accumulator) (g fn)) True fs = ret True"
  by (induction fs) (simp_all add: reduce_Nil reduce_Cons js_or_def seq_ret_left)

section \<open>How \<open>apply\<close> walks the children\<close>

lemma invoke_Predicate: "invoke (Predicate p) x = p x"
  by (simp add: invoke_def)

lemma invoke_Filter: "invoke (Filter f) x = apply_qf f x"
  by (simp add: invoke_def)

lemma apply_qf_unfold:
  "apply_qf (QueryFilterImpl op neg fs a) el =
     seq (reduce (\<lambda>accumulator fn.
                    (if op = Intersection then js_and else js_or) (ret accumulator) (invoke fn el))
            (op = Intersection) fs)
         (\<lambda>provisional. ret (neg \<noteq> provisional))"
  by (cases op; cases neg) (simp_all add: invoke_def js_not_def seq_ret_left)

declare apply_qf.simps [simp del]

lemma apply_qf_Nil:
  "apply_qf (QueryFilterImpl op neg [] a) x = ret (neg \<noteq> (op = Intersection))"
  by (simp add: apply_qf_unfold reduce_Nil seq_ret_left)

lemma apply_qf_Intersection_Cons:
  "apply_qf (QueryFilterImpl Intersection neg (f # fs) a) x =
     seq (invoke f x)
       (\<lambda>v. if v then apply_qf (QueryFilterImpl Intersection neg fs a) x else ret neg)"
proof -
  let ?cb = "\<lambda>accumulator fn. js_and (ret accumulator) (invoke fn x)"
  let ?post = "\<lambda>provisional. ret (neg \<noteq> provisional)"
  have step: "seq (reduce ?cb v fs) ?post =
      (if v then apply_qf (QueryFilterImpl Intersection neg fs a) x else ret neg)" for v
    by (cases v) (simp_all add: apply_qf_unfold reduce_and_False seq_ret_left)
  have "apply_qf (QueryFilterImpl Intersection neg (f # fs) a) x =
      seq (invoke f x) (\<lambda>v. seq (reduce ?cb v fs) ?post)"
    by (simp add: apply_qf_unfold reduce_Cons js_and_ret_True seq_assoc)
  then show ?thesis
    by (simp only: step)
qed

lemma apply_qf_Union_Cons:
  "apply_qf (QueryFilterImpl Union neg (f # fs) a) x =
     seq (invoke f x)
       (\<lambda>v. if v then ret (\<not> neg) else apply_qf (QueryFilterImpl Union neg fs a) x)"
proof -
  let ?cb = "\<lambda>accumulator fn. js_or (ret accumulator) (invoke fn x)"
  let ?post = "\<lambda>provisional. ret (neg \<noteq> provisional)"
  have step: "seq (reduce ?cb v fs) ?post =
      (if v then ret (\<not> neg) else apply_qf (QueryFilterImpl Union neg fs a) x)" for v
    by (cases v) (simp_all add: apply_qf_unfold reduce_or_True seq_ret_left)
  have "apply_qf (QueryFilterImpl Union neg (f # fs) a) x =
      seq (invoke f x) (\<lambda>v. seq (reduce ?cb v fs) ?post)"
    by (simp add: apply_qf_unfold reduce_Cons js_or_ret_False seq_assoc)
  then show ?thesis
    by (simp only: step)
qed

lemma and_Nil: "apply_qf (and_qf []) x = ret True"
  by (simp add: and_qf_def apply_qf_Nil)

lemma or_Nil: "apply_qf (or_qf []) x = ret False"
  by (simp add: or_qf_def apply_qf_Nil)

lemma and_Cons: "apply_qf (and_qf (f # fs)) x = js_and (invoke f x) (apply_qf (and_qf fs) x)"
  unfolding and_qf_def js_and_def apply_qf_Intersection_Cons
  by (rule seq_ext) simp

lemma or_Cons: "apply_qf (or_qf (f # fs)) x = js_or (invoke f x) (apply_qf (or_qf fs) x)"
  unfolding or_qf_def js_or_def apply_qf_Union_Cons
  by (rule seq_ext) simp

lemma and_snoc: "apply_qf (and_qf (fs @ [f])) x = js_and (apply_qf (and_qf fs) x) (invoke f x)"
  by (induction fs)
     (simp_all add: and_Cons and_Nil js_and_ret_True js_and_ret_True_right js_and_assoc)

lemma or_snoc: "apply_qf (or_qf (fs @ [f])) x = js_or (apply_qf (or_qf fs) x) (invoke f x)"
  by (induction fs)
     (simp_all add: or_Cons or_Nil js_or_ret_False js_or_ret_False_right js_or_assoc)

lemma and_two: "apply_qf (and_qf [f1, f2]) x = js_and (invoke f1 x) (invoke f2 x)"
  by (simp add: and_Cons and_Nil js_and_ret_True_right)

lemma or_two: "apply_qf (or_qf [f1, f2]) x = js_or (invoke f1 x) (invoke f2 x)"
  by (simp add: or_Cons or_Nil js_or_ret_False_right)

lemma not_one: "apply_qf (not_qf f) x = js_not (invoke f x)"
  unfolding not_qf_def js_not_def apply_qf_Intersection_Cons apply_qf_Nil
  by (rule seq_ext) simp

lemma filter_one: "apply_qf (filter_qf p) x = p x"
proof -
  have "apply_qf (filter_qf p) x = seq (p x) ret"
    unfolding filter_qf_def apply_qf_Intersection_Cons apply_qf_Nil invoke_Predicate
    by (rule seq_ext) simp
  then show ?thesis
    by (simp add: seq_ret_right)
qed

section \<open>Trees of pure predicates\<close>

lemma mapped_children_and:
  assumes "\<And>c. c \<in> set cs \<Longrightarrow> invoke (h c) x s = (Inr (v c), s)"
  shows "apply_qf (QueryFilterImpl Intersection neg (map h cs) a) x s =
           (Inr (neg \<noteq> list_all v cs), s)"
  using assms
proof (induction cs)
  case Nil
  then show ?case by (simp add: apply_qf_Nil ret_def)
next
  case (Cons c cs)
  then show ?case
    by (simp add: apply_qf_Intersection_Cons seq_def ret_def)
qed

lemma mapped_children_or:
  assumes "\<And>c. c \<in> set cs \<Longrightarrow> invoke (h c) x s = (Inr (v c), s)"
  shows "apply_qf (QueryFilterImpl Union neg (map h cs) a) x s =
           (Inr (neg \<noteq> list_ex v cs), s)"
  using assms
proof (induction cs)
  case Nil
  then show ?case by (simp add: apply_qf_Nil ret_def)
next
  case (Cons c cs)
  then show ?case
    by (simp add: apply_qf_Union_Cons seq_def ret_def)
qed

lemma spec_eval_unfold:
  "spec_eval (QueryFilterImpl op neg fs a) x =
     (neg \<noteq> (case op of
                Intersection \<Rightarrow> list_all (\<lambda>f. spec_eval_child f x) fs
              | Union \<Rightarrow> list_ex (\<lambda>f. spec_eval_child f x) fs))"
  by (simp add: Let_def)

declare spec_eval.simps(1) [simp del]

lemma pure_tree:
  fixes f :: "('el \<Rightarrow> bool) AnyFilter" and t :: "('el \<Rightarrow> bool) QueryFilterImpl"
    and s :: 's
  shows "invoke (map_AnyFilter pure_pred f) x s = (Inr (spec_eval_child f x) :: 'err + bool, s)"
    and "apply_qf (map_QueryFilterImpl pure_pred t) x s = (Inr (spec_eval t x) :: 'err + bool, s)"
proof (induction f and t)
  case (Predicate p)
  show ?case
    by (simp add: invoke_def pure_pred_def ret_def)
next
  case (Filter g)
  then show ?case
    by (simp add: invoke_def)
next
  case (QueryFilterImpl op neg fs a)
  then show ?case
    by (cases op)
       (simp_all only: QueryFilterImpl.map spec_eval_unfold QueryFilterChainOperator.case
          mapped_children_and mapped_children_or)
qed

lemma apply_qf_pure: "apply_qf (map_QueryFilterImpl pure_pred t) x = ret (spec_eval t x)"
  by (rule ext) (simp add: pure_tree ret_def)

lemma invoke_pure: "invoke (map_AnyFilter pure_pred c) x = ret (spec_eval_child c x)"
  by (rule ext) (simp add: pure_tree ret_def)

section \<open>The \<open>async\<close> flag\<close>

lemma mapped_children_same:
  assumes "\<And>c. c \<in> set cs \<Longrightarrow> invoke (h c) x = invoke c x"
  shows "apply_qf (QueryFilterImpl op neg (map h cs) a) x = apply_qf (QueryFilterImpl op neg cs b) x"
  using assms
proof (induction cs)
  case Nil
  then show ?case by (simp add: apply_qf_Nil)
next
  case (Cons c cs)
  then show ?case
    by (cases op) (simp_all add: apply_qf_Intersection_Cons apply_qf_Union_Cons cong: if_cong)
qed

lemma erase_async_same:
  fixes f :: "('el, 's, 'err) QueryFilterPredicate AnyFilter"
    and t :: "('el, 's, 'err) QueryFilterPredicate QueryFilterImpl"
  shows "invoke (erase_async_child f) x = invoke f x"
    and "apply_qf (erase_async t) x = apply_qf t x"
proof (induction f and t)
  case (Predicate p)
  show ?case by simp
next
  case (Filter g)
  then show ?case by (simp add: invoke_Filter)
next
  case (QueryFilterImpl op neg fs a)
  then show ?case
    by (simp add: mapped_children_same)
qed

section \<open>Counting leaf calls\<close>

lemma counted_children_and:
  assumes "\<And>c n. c \<in> set cs \<Longrightarrow>
      invoke (h c) x n = (Inr (spec_eval_child c x), n + leaf_calls_child c x)"
  shows "apply_qf (QueryFilterImpl Intersection neg (map h cs) a) x n =
      (Inr (neg \<noteq> list_all (\<lambda>c. spec_eval_child c x) cs),
       n + leaf_calls_children Intersection cs x)"
  using assms
proof (induction cs arbitrary: n)
  case Nil
  then show ?case by (simp add: apply_qf_Nil ret_def)
next
  case (Cons c cs)
  then show ?case
    by (simp add: apply_qf_Intersection_Cons seq_def ret_def)
qed

lemma counted_children_or:
  assumes "\<And>c n. c \<in> set cs \<Longrightarrow>
      invoke (h c) x n = (Inr (spec_eval_child c x), n + leaf_calls_child c x)"
  shows "apply_qf (QueryFilterImpl Union neg (map h cs) a) x n =
      (Inr (neg \<noteq> list_ex (\<lambda>c. spec_eval_child c x) cs),
       n + leaf_calls_children Union cs x)"
  using assms
proof (induction cs arbitrary: n)
  case Nil
  then show ?case by (simp add: apply_qf_Nil ret_def)
next
  case (Cons c cs)
  then show ?case
    by (simp add: apply_qf_Union_Cons seq_def ret_def)
qed

lemma counted_tree:
  fixes f :: "('el \<Rightarrow> bool) AnyFilter" and t :: "('el \<Rightarrow> bool) QueryFilterImpl"
  shows "invoke (map_AnyFilter counted f) x n =
      (Inr (spec_eval_child f x) :: 'err + bool, n + leaf_calls_child f x)"
    and "apply_qf (map_QueryFilterImpl counted t) x n =
      (Inr (spec_eval t x) :: 'err + bool, n + leaf_calls t x)"
proof (induction f and t arbitrary: n and n)
  case (Predicate p)
  show ?case
    by (simp add: invoke_def counted_def)
next
  case (Filter g)
  then show ?case
    by (simp add: invoke_def)
next
  case (QueryFilterImpl op neg fs a)
  then show ?case
    by (cases op)
       (simp_all only: QueryFilterImpl.map spec_eval_unfold QueryFilterChainOperator.case
          leaf_calls.simps counted_children_and counted_children_or)
qed

lemma leaf_calls_le:
  fixes f :: "('el \<Rightarrow> bool) AnyFilter" and t :: "('el \<Rightarrow> bool) QueryFilterImpl"
  shows "leaf_calls_child f x \<le> length (leaves_child f)"
    and "leaf_calls t x \<le> length (leaves t)"
proof (induction f and t)
  case (Predicate p)
  show ?case by simp
next
  case (Filter g)
  then show ?case by simp
next
  case (QueryFilterImpl op neg fs a)
  have "leaf_calls_children op cs x \<le> length (concat (map leaves_child cs))"
    if "\<And>c. c \<in> set cs \<Longrightarrow> leaf_calls_child c x \<le> length (leaves_child c)" for cs
    using that
  proof (induction cs)
    case Nil
    show ?case by simp
  next
    case (Cons c cs)
    have "leaf_calls_child c x \<le> length (leaves_child c)"
      by (rule Cons.prems) simp
    moreover have "leaf_calls_children op cs x \<le> length (concat (map leaves_child cs))"
      by (rule Cons.IH) (simp add: Cons.prems)
    ultimately show ?case by simp
  qed
  with QueryFilterImpl show ?case by simp
qed

section \<open>Errors\<close>

lemma raised_by_child:
  "apply_qf (QueryFilterImpl op neg cs a) x s = (Inl e, s') \<Longrightarrow>
     \<exists>c \<in> set cs. \<exists>s0. invoke c x s0 = (Inl e, s')"
proof (induction cs arbitrary: s)
  case Nil
  then show ?case by (simp add: apply_qf_Nil ret_def)
next
  case (Cons c cs)
  show ?case
  proof (cases "invoke c x s")
    case (Pair r s1)
    show ?thesis
    proof (cases r)
      case (Inl e1)
      with Pair Cons.prems have "invoke c x s = (Inl e, s')"
        by (cases op) (simp_all add: apply_qf_Intersection_Cons apply_qf_Union_Cons seq_def)
      then show ?thesis by auto
    next
      case (Inr v)
      with Pair Cons.prems have "apply_qf (QueryFilterImpl op neg cs a) x s1 = (Inl e, s')"
        by (cases op)
           (simp_all add: apply_qf_Intersection_Cons apply_qf_Union_Cons seq_def ret_def
              split: if_splits)
      then show ?thesis using Cons.IH by auto
    qed
  qed
qed

lemma raised_by_leaf:
  fixes f :: "('el, 's, 'err) QueryFilterPredicate AnyFilter"
    and t :: "('el, 's, 'err) QueryFilterPredicate QueryFilterImpl"
  shows "invoke f x s = (Inl e, s') \<Longrightarrow> \<exists>p \<in> set (leaves_child f). \<exists>s0. p x s0 = (Inl e, s')"
    and "apply_qf t x s = (Inl e, s') \<Longrightarrow> \<exists>p \<in> set (leaves t). \<exists>s0. p x s0 = (Inl e, s')"
proof (induction f and t arbitrary: s and s)
  case (Predicate p)
  then show ?case by (auto simp: invoke_def)
next
  case (Filter g)
  then show ?case by (simp add: invoke_def)
next
  case (QueryFilterImpl op neg fs a)
  from raised_by_child [OF QueryFilterImpl.prems]
  obtain c s0 where c: "c \<in> set fs" and "invoke c x s0 = (Inl e, s')"
    by blast
  with QueryFilterImpl.IH obtain p s1 where "p \<in> set (leaves_child c)" and "p x s1 = (Inl e, s')"
    by blast
  with c show ?case
    by auto
qed

lemma apply_qf_undecided_prefix:
  "apply_qf (QueryFilterImpl op False pre a) x s = (Inr (op = Intersection), s1) \<Longrightarrow>
   apply_qf (QueryFilterImpl op neg (pre @ rest) b) x s =
   apply_qf (QueryFilterImpl op neg rest b) x s1"
proof (induction pre arbitrary: s)
  case Nil
  then show ?case by (simp add: apply_qf_Nil ret_def)
next
  case (Cons c pre)
  show ?case
  proof (cases "invoke c x s")
    case (Pair r s')
    show ?thesis
    proof (cases r)
      case (Inl e)
      with Pair Cons.prems show ?thesis
        by (cases op) (simp_all add: apply_qf_Intersection_Cons apply_qf_Union_Cons seq_def)
    next
      case (Inr v)
      with Pair Cons.prems
      have v: "v = (op = Intersection)"
        and pre: "apply_qf (QueryFilterImpl op False pre a) x s' = (Inr (op = Intersection), s1)"
        by (cases op; simp add: apply_qf_Intersection_Cons apply_qf_Union_Cons seq_def ret_def
              split: if_splits)+
      from pre have "apply_qf (QueryFilterImpl op neg (pre @ rest) b) x s' =
          apply_qf (QueryFilterImpl op neg rest b) x s1"
        by (rule Cons.IH)
      with Pair Inr v show ?thesis
        by (cases op) (simp_all add: apply_qf_Intersection_Cons apply_qf_Union_Cons seq_def)
    qed
  qed
qed

lemma raise_propagates:
  assumes "apply_qf (QueryFilterImpl op False pre a) x s = (Inr (op = Intersection), s1)"
    and "invoke f x s1 = (Inl e, s2)"
  shows "apply_qf (QueryFilterImpl op neg (pre @ f # post) b) x s = (Inl e, s2)"
  using assms(2) unfolding apply_qf_undecided_prefix [OF assms(1)]
  by (cases op) (simp_all add: apply_qf_Intersection_Cons apply_qf_Union_Cons seq_def)

section \<open>The properties\<close>

text \<open>
  C6. Empty-combinator identities: for every element \<open>x\<close>, \<open>and().apply(x)\<close> is true and
  \<open>or().apply(x)\<close> is false; a node with no children evaluates to the seed of the
  reduction of its chain operator (true for Intersection, false for Union). The results
  are equations between computations: they hold in every state, and the state is left
  untouched.
\<close>

theorem empty_combinator_identities:
  "apply_qf (and_qf []) x = ret True
   \<and> apply_qf (or_qf []) x = ret False
   \<and> apply_qf (QueryFilterImpl Intersection False [] a) x = ret True
   \<and> apply_qf (QueryFilterImpl Union False [] a) x = ret False"
  by (simp add: and_Nil or_Nil apply_qf_Nil)

text \<open>
  C7. Singleton wrapper preservation: for every leaf predicate \<open>p\<close> and every element
  \<open>x\<close>, \<open>filter(p).apply(x)\<close> is \<open>p(x)\<close>: the same value or the same error, with the same
  effect on the state.
\<close>

theorem singleton_wrapper:
  "apply_qf (filter_qf p) x = p x"
  by (rule filter_one)

text \<open>
  C9. Identity filter: \<open>identity.apply(x)\<close> is true for every element \<open>x\<close>.
\<close>

theorem identity_filter:
  "apply_qf identity x = ret True"
  by (simp add: identity_def filter_one)

text \<open>
  C2. Negation semantics: for every filter \<open>f\<close>, a leaf predicate or a composite node,
  and every element \<open>x\<close>, \<open>not(f).apply(x)\<close> is the boolean negation of the result of
  \<open>f\<close> on \<open>x\<close>, and double negation cancels: \<open>not(not(f)).apply(x)\<close> is the result of
  \<open>f\<close> on \<open>x\<close>. For a tree \<open>c\<close> of pure predicates the result is the negation of its
  boolean reading.
\<close>

theorem negation_semantics:
  "apply_qf (not_qf f) x = js_not (invoke f x)
   \<and> apply_qf (not_qf (Filter (not_qf f))) x = invoke f x
   \<and> apply_qf (not_qf (map_AnyFilter pure_pred c)) x = ret (\<not> spec_eval_child c x)"
proof -
  have "js_not (ret (spec_eval_child c x)) = ret (\<not> spec_eval_child c x)"
    by (simp add: js_not_def seq_ret_left)
  then show ?thesis
    by (simp add: not_one invoke_Filter js_not_js_not invoke_pure)
qed

text \<open>
  C1. Compositional AND/OR semantics: for all filters \<open>f1\<close>, \<open>f2\<close> and every element
  \<open>x\<close>, \<open>and(f1, f2).apply(x)\<close> is \<open>f1.apply(x) && f2.apply(x)\<close> and \<open>or(f1, f2).apply(x)\<close>
  is \<open>f1.apply(x) || f2.apply(x)\<close>. This extends to any number of children as a
  left-to-right fold (one more child at the end is one more \<open>&&\<close> or \<open>||\<close> at the end),
  and to nested trees: \<open>and(f1, or(f2, not(f3))).apply(x)\<close> is
  \<open>f1(x) && (f2(x) || !f3(x))\<close>. On pure predicates the result of a node of any number
  of children is the conjunction (disjunction) of the results of the children, and the
  result of a tree of any depth is its reading as a boolean expression.
\<close>

theorem and_or_compositional:
  "apply_qf (and_qf [f1, f2]) x = js_and (invoke f1 x) (invoke f2 x)
   \<and> apply_qf (or_qf [f1, f2]) x = js_or (invoke f1 x) (invoke f2 x)
   \<and> apply_qf (and_qf (fs @ [f])) x = js_and (apply_qf (and_qf fs) x) (invoke f x)
   \<and> apply_qf (or_qf (fs @ [f])) x = js_or (apply_qf (or_qf fs) x) (invoke f x)
   \<and> apply_qf (and_qf [f1, Filter (or_qf [f2, Filter (not_qf f3)])]) x =
       js_and (invoke f1 x) (js_or (invoke f2 x) (js_not (invoke f3 x)))
   \<and> apply_qf (and_qf (map (map_AnyFilter pure_pred) cs)) x =
       ret (list_all (\<lambda>c. spec_eval_child c x) cs)
   \<and> apply_qf (or_qf (map (map_AnyFilter pure_pred) cs)) x =
       ret (list_ex (\<lambda>c. spec_eval_child c x) cs)
   \<and> apply_qf (map_QueryFilterImpl pure_pred t) x = ret (spec_eval t x)"
proof -
  have nested: "apply_qf (and_qf [f1, Filter (or_qf [f2, Filter (not_qf f3)])]) x =
      js_and (invoke f1 x) (js_or (invoke f2 x) (js_not (invoke f3 x)))"
    by (simp add: and_two or_two not_one invoke_Filter)
  have "apply_qf (map_QueryFilterImpl pure_pred (and_qf cs)) x = ret (spec_eval (and_qf cs) x)"
    by (rule apply_qf_pure)
  then have all_pure: "apply_qf (and_qf (map (map_AnyFilter pure_pred) cs)) x =
      ret (list_all (\<lambda>c. spec_eval_child c x) cs)"
    by (simp add: and_qf_def spec_eval_unfold)
  have "apply_qf (map_QueryFilterImpl pure_pred (or_qf cs)) x = ret (spec_eval (or_qf cs) x)"
    by (rule apply_qf_pure)
  then have ex_pure: "apply_qf (or_qf (map (map_AnyFilter pure_pred) cs)) x =
      ret (list_ex (\<lambda>c. spec_eval_child c x) cs)"
    by (simp add: or_qf_def spec_eval_unfold)
  show ?thesis
    using and_two [of f1 f2 x] or_two [of f1 f2 x] and_snoc [of fs f x] or_snoc [of fs f x]
      nested all_pure ex_pure apply_qf_pure [of t x]
    by (intro conjI)
qed

text \<open>
  C8. De Morgan consistency: for all filters \<open>f1\<close>, \<open>f2\<close> and every element \<open>x\<close>,
  \<open>not(and(f1, f2)).apply(x)\<close> equals \<open>or(not(f1), not(f2)).apply(x)\<close>.
\<close>

theorem de_morgan_consistency:
  "apply_qf (not_qf (Filter (and_qf [f1, f2]))) x =
   apply_qf (or_qf [Filter (not_qf f1), Filter (not_qf f2)]) x"
  by (simp add: and_two or_two not_one invoke_Filter js_not_js_and)

text \<open>
  C4, as the code has it. The negation of an empty combinator is the negation of its
  seed: for every element \<open>x\<close>, \<open>not(and()).apply(x)\<close> is false and \<open>not(or()).apply(x)\<close>
  is true; likewise a negated node with no children returns false under Intersection and
  true under Union.
\<close>

theorem negated_empty_combinators:
  "apply_qf (not_qf (Filter (and_qf []))) x = ret False
   \<and> apply_qf (not_qf (Filter (or_qf []))) x = ret True
   \<and> apply_qf (QueryFilterImpl Intersection True [] a) x = ret False
   \<and> apply_qf (QueryFilterImpl Union True [] a) x = ret True"
  by (simp add: not_one invoke_Filter and_Nil or_Nil js_not_def seq_ret_left apply_qf_Nil)

text \<open>
  C4, as the specification states it (\<open>not(and()).apply(x)\<close> true, \<open>not(or()).apply(x)\<close>
  false), fails on both counts, here at the element \<open>0\<close> in the state \<open>0\<close>.
\<close>

theorem negated_empty_counterexample:
  "apply_qf (not_qf (Filter (and_qf []))) (0::nat) (0::nat) \<noteq> (Inr True :: string + bool, 0)
   \<and> apply_qf (not_qf (Filter (or_qf []))) (0::nat) (0::nat) \<noteq> (Inr False :: string + bool, 0)"
  by (simp add: not_one invoke_Filter and_Nil or_Nil js_not_def seq_def ret_def)


text \<open>
  C10. The \<open>async\<close> flag does not influence evaluation: two nodes that are identical
  except in the value of the flag give the same result, the same error and the same
  effect on every element; and so do two trees that differ only in the flags of any of
  their nodes.
\<close>

theorem async_flag_ignored:
  "apply_qf (QueryFilterImpl op neg fs a) x = apply_qf (QueryFilterImpl op neg fs b) x
   \<and> (erase_async n = erase_async m \<longrightarrow> apply_qf n x = apply_qf m x)"
proof -
  have "apply_qf (QueryFilterImpl op neg fs a) x = apply_qf (QueryFilterImpl op neg fs b) x"
    by (simp add: apply_qf_unfold)
  moreover have "apply_qf n x = apply_qf m x" if "erase_async n = erase_async m"
    using erase_async_same(2) [of n x] erase_async_same(2) [of m x] that by simp
  ultimately show ?thesis
    by blast
qed

theorem async_flag_ignored_witness:
  "erase_async (QueryFilterImpl Intersection False
       [Filter (QueryFilterImpl Union True [Predicate (pure_pred even)] True)] False) =
   erase_async (QueryFilterImpl Intersection False
       [Filter (QueryFilterImpl Union True [Predicate (pure_pred even)] False)] True)
   \<and> apply_qf (QueryFilterImpl Intersection False
       [Filter (QueryFilterImpl Union True [Predicate (pure_pred even)] True)] False) (3::nat) =
     (apply_qf (QueryFilterImpl Intersection False
       [Filter (QueryFilterImpl Union True [Predicate (pure_pred even)] False)] True) (3::nat)
      :: (nat, string, bool) comp)"
  using async_flag_ignored [of Intersection False "[]" False "3::nat" False
      "QueryFilterImpl Intersection False
         [Filter (QueryFilterImpl Union True [Predicate (pure_pred even)] True)] False"
      "QueryFilterImpl Intersection False
         [Filter (QueryFilterImpl Union True [Predicate (pure_pred even)] False)] True"]
  by simp

text \<open>
  C5. Fail-fast error propagation. \<open>apply\<close> raises no error of its own: an error that
  leaves \<open>apply\<close> is the error that one of the leaf predicates of the tree raised on the
  element, and the state is the state that leaf left; hence \<open>apply\<close> returns a boolean
  whenever every leaf does. And an error raised during the evaluation propagates
  unmodified and aborts it: when the children before \<open>f\<close> have been evaluated without
  deciding the node and \<open>f\<close> (a leaf or a nested node) raises \<open>e\<close>, then \<open>apply\<close> raises
  \<open>e\<close> in the state \<open>f\<close> left, whatever the children after \<open>f\<close> and the negation flag
  are: nothing runs after the error, and no default result replaces it.
\<close>

theorem fail_fast_propagation:
  "(apply_qf t x s = (Inl e, s') \<longrightarrow> (\<exists>p \<in> set (leaves t). \<exists>s0. p x s0 = (Inl e, s')))
   \<and> ((\<forall>p \<in> set (leaves t). \<forall>s0. \<exists>v s1. p x s0 = (Inr v, s1))
      \<longrightarrow> (\<exists>v s1. apply_qf t x s = (Inr v, s1)))
   \<and> (apply_qf (QueryFilterImpl op False pre a) x s = (Inr (op = Intersection), s1)
        \<and> invoke f x s1 = (Inl e, s2)
      \<longrightarrow> apply_qf (QueryFilterImpl op neg (pre @ f # post) b) x s = (Inl e, s2))"
proof -
  have total: "\<exists>v s1. apply_qf t x s = (Inr v, s1)"
    if leaves_return: "\<forall>p \<in> set (leaves t). \<forall>s0. \<exists>v s1. p x s0 = (Inr v, s1)"
  proof (cases "apply_qf t x s")
    case (Pair r s1)
    show ?thesis
    proof (cases r)
      case (Inl e1)
      with Pair obtain p s0 where "p \<in> set (leaves t)" and "p x s0 = (Inl e1, s1)"
        using raised_by_leaf(2) [of t x s e1 s1] by blast
      moreover from this leaves_return obtain v s2 where "p x s0 = (Inr v, s2)"
        by blast
      ultimately show ?thesis
        by simp
    next
      case (Inr v)
      with Pair show ?thesis
        by simp
    qed
  qed
  show ?thesis
    using raised_by_leaf(2) [of t x s e s'] total
      raise_propagates [of op pre a x s s1 f e s2 neg post b]
    by blast
qed

theorem fail_fast_propagation_witness:
  "apply_qf (and_qf [Predicate (counted (constantly True)), Predicate (throwing ''boom''),
       Predicate (counted (constantly True))]) (0::nat) 0 = (Inl ''boom'', 1)
   \<and> (\<exists>p \<in> set (leaves (and_qf [Predicate (counted (constantly True)),
           Predicate (throwing ''boom''), Predicate (counted (constantly True))])).
         \<exists>s0. p (0::nat) s0 = (Inl ''boom'', 1))
   \<and> (\<exists>v s1. apply_qf (and_qf [Predicate (counted (constantly True)),
           Filter (not_qf (Predicate (counted (constantly False))))]) (0::nat) 0 =
         (Inr v :: string + bool, s1))
   \<and> apply_qf (QueryFilterImpl Union False [Predicate (counted (constantly False))] False)
         (0::nat) 0 = (Inr (Union = Intersection) :: string + bool, 1)
   \<and> invoke (Predicate (throwing ''boom'')) (0::nat) (1::nat) = (Inl ''boom'', 1)
   \<and> apply_qf (QueryFilterImpl Union True
         ([Predicate (counted (constantly False))] @ Predicate (throwing ''boom'')
            # [Predicate (counted (constantly True))]) False) (0::nat) 0 = (Inl ''boom'', 1)"
proof -
  let ?ok = "Predicate (counted (constantly True))
    :: (nat, nat, string) QueryFilterPredicate AnyFilter"
  let ?no = "Predicate (counted (constantly False))
    :: (nat, nat, string) QueryFilterPredicate AnyFilter"
  let ?boom = "Predicate (throwing ''boom'')
    :: (nat, nat, string) QueryFilterPredicate AnyFilter"
  have h1: "apply_qf (and_qf [?ok, ?boom, ?ok]) 0 0 = (Inl ''boom'', 1)"
    by (simp add: and_Cons and_Nil js_and_def seq_def ret_def invoke_Predicate counted_def
          constantly_def throwing_def)
  have h2: "\<forall>p \<in> set (leaves (and_qf [?ok, Filter (not_qf ?no)])).
      \<forall>s0. \<exists>v s1. p 0 s0 = (Inr v, s1)"
    by (simp add: and_qf_def not_qf_def counted_def)
  have h3: "apply_qf (QueryFilterImpl Union False [?no] False) 0 0 =
      (Inr (Union = Intersection), 1)"
    by (simp add: apply_qf_Union_Cons apply_qf_Nil seq_def ret_def invoke_Predicate counted_def
          constantly_def)
  have h4: "invoke ?boom 0 1 = (Inl ''boom'', 1)"
    by (simp add: invoke_Predicate throwing_def)
  have c1: "\<exists>p \<in> set (leaves (and_qf [?ok, ?boom, ?ok])). \<exists>s0. p 0 s0 = (Inl ''boom'', 1)"
    using h1 fail_fast_propagation [of "and_qf [?ok, ?boom, ?ok]" 0 0 "''boom''" 1]
    by blast
  have c2: "\<exists>v s1. apply_qf (and_qf [?ok, Filter (not_qf ?no)]) 0 0 = (Inr v, s1)"
    using h2 fail_fast_propagation [of "and_qf [?ok, Filter (not_qf ?no)]" 0 0]
    by blast
  have c3: "apply_qf (QueryFilterImpl Union True ([?no] @ ?boom # [?ok]) False) 0 0 =
      (Inl ''boom'', 1)"
    using h3 h4
      fail_fast_propagation [where x = 0 and s = 0 and op = Union and pre = "[?no]"
        and a = False and ?s1.0 = 1 and f = ?boom and e = "''boom''" and ?s2.0 = 1
        and neg = True and post = "[?ok]" and b = False]
    by blast
  from h1 c1 c2 h3 h4 c3 show ?thesis
    by (intro conjI)
qed

text \<open>
  C3, as the code has it. There is no caching: every call to \<open>apply\<close> evaluates the tree
  afresh, the children of each node from left to right, and re-executes every leaf
  predicate that this evaluation reaches, also when the same sub-tree appears twice; no
  result is reused across or within calls. But \<open>&&\<close> and \<open>||\<close> short-circuit, so not
  every leaf is reached: once a child of an Intersection node has returned false, or a
  child of a Union node true, the remaining children of that node are not invoked.

  The first two equations are this rule for arbitrary children: the first child is always
  run, and the rest of the node is run in the state it leaves exactly when it did not
  decide the node. The others count calls on a tree \<open>t\<close> of pure predicates, each wrapped
  by \<open>counted\<close>: one call to \<open>apply\<close> adds \<open>leaf_calls t x\<close> to the counter whatever the
  counter was, so a second call runs the same leaves again; a sub-tree that appears twice
  is run twice when it is reached twice; and the count never exceeds the number of
  leaves.
\<close>

theorem no_caching_short_circuit:
  "apply_qf (QueryFilterImpl Intersection neg (f # fs) a) x =
     seq (invoke f x)
       (\<lambda>v. if v then apply_qf (QueryFilterImpl Intersection neg fs a) x else ret neg)
   \<and> apply_qf (QueryFilterImpl Union neg (f # fs) a) x =
     seq (invoke f x)
       (\<lambda>v. if v then ret (\<not> neg) else apply_qf (QueryFilterImpl Union neg fs a) x)
   \<and> apply_qf (map_QueryFilterImpl counted t) x n = (Inr (spec_eval t x), n + leaf_calls t x)
   \<and> seq (apply_qf (map_QueryFilterImpl counted t) x)
        (\<lambda>r. apply_qf (map_QueryFilterImpl counted t) x) n =
      (Inr (spec_eval t x), n + 2 * leaf_calls t x)
   \<and> apply_qf (and_qf [Filter (map_QueryFilterImpl counted t),
                        Filter (map_QueryFilterImpl counted t)]) x n =
      (Inr (spec_eval t x), n + (if spec_eval t x then 2 * leaf_calls t x else leaf_calls t x))
   \<and> leaf_calls t x \<le> length (leaves t)"
proof -
  have twice: "seq (apply_qf (map_QueryFilterImpl counted t) x)
        (\<lambda>r. apply_qf (map_QueryFilterImpl counted t) x) n =
      (Inr (spec_eval t x), n + 2 * leaf_calls t x)"
    by (simp add: seq_def counted_tree(2))
  have dup: "apply_qf (and_qf [Filter (map_QueryFilterImpl counted t),
                        Filter (map_QueryFilterImpl counted t)]) x n =
      (Inr (spec_eval t x), n + (if spec_eval t x then 2 * leaf_calls t x else leaf_calls t x))"
    by (simp add: and_two invoke_Filter js_and_def seq_def ret_def counted_tree(2))
  show ?thesis
    using apply_qf_Intersection_Cons [of neg f fs a x] apply_qf_Union_Cons [of neg f fs a x]
      counted_tree(2) [of t x n] twice dup leaf_calls_le(2) [of t x]
    by (intro conjI)
qed

text \<open>
  C3, as the specification states it (every call re-executes every leaf predicate of the
  tree, none is skipped), fails on \<open>and(() => false, () => true)\<close>: the tree has two
  leaves, and one call to \<open>apply\<close> runs one of them.
\<close>

theorem full_reexecution_counterexample:
  "apply_qf (map_QueryFilterImpl counted
       (and_qf [Predicate (constantly False), Predicate (constantly True)])) (0::nat) 0 =
     (Inr False :: string + bool, 1)
   \<and> length (leaves (and_qf [Predicate (constantly False :: nat \<Rightarrow> bool),
                               Predicate (constantly True)])) = 2
   \<and> snd (apply_qf (map_QueryFilterImpl counted
         (and_qf [Predicate (constantly False), Predicate (constantly True)])) (0::nat) 0
         :: (string + bool) \<times> nat) \<noteq>
       0 + length (leaves (and_qf [Predicate (constantly False :: nat \<Rightarrow> bool),
                               Predicate (constantly True)]))"
proof -
  let ?t = "and_qf [Predicate (constantly False :: nat \<Rightarrow> bool), Predicate (constantly True)]"
  have "spec_eval ?t 0 = False" and "leaf_calls ?t 0 = 1" and "length (leaves ?t) = 2"
    by (simp_all add: and_qf_def spec_eval_unfold constantly_def)
  then show ?thesis
    by (simp only: counted_tree(2)) simp
qed

end
